theory Spec2Isabelle
  imports Main "HOL-Library.Signed_Division"
begin

section \<open>The calendar arithmetic of ethiopian\_calendar.c\<close>

text \<open>
  The C source computes on \<open>int\<close> with the operators \<open>/\<close> and \<open>%\<close>, which truncate
  towards zero (ISO C99). They are modelled by \<open>sdiv\<close> and \<open>smod\<close> on the integers;
  HOL's \<open>div\<close> and \<open>mod\<close> round towards minus infinity and are used only where the
  specification's floor division is meant. The functions are first defined on the
  mathematical integers. An \<open>int\<close> has 32 bits and signed overflow is undefined in C: the
  last subsection of the definitions lists the values that the two Gregorian converters
  compute and gives them a result only where every value is in the range of \<open>int\<close>.
\<close>

definition ETHIOPIAN_EPOCH :: int where
  "ETHIOPIAN_EPOCH = 1724221"

text \<open>
  \<open>POSTGRES_EPOCH_JDATE\<close> is a macro of the PostgreSQL headers; its value is quoted in
  the comment of \<open>dateadt_to_gregorian\<close>: a \<open>DateADT\<close> counts the days since 2000-01-01,
  which is JDN 2451545.
\<close>

definition POSTGRES_EPOCH_JDATE :: int where
  "POSTGRES_EPOCH_JDATE = 2451545"

text \<open>
  Modelled from the spec: \<open>USECS_PER_DAY\<close> is a macro of the PostgreSQL headers and is
  missing from the repository. It is the length of the day of section 3 of the
  specification (the time-of-day offset is shorter than one day) in microseconds, the unit of
  a PostgreSQL timestamp.
\<close>

definition USECS_PER_DAY :: int where
  "USECS_PER_DAY = 86400000000"

subsection \<open>Gregorian date and Julian Day Number\<close>

definition gregorian_to_jdn :: "int \<Rightarrow> int \<Rightarrow> int \<Rightarrow> int" where
  "gregorian_to_jdn year month day =
     (let a = (14 - month) sdiv 12;
          y = year + 4800 - a;
          m = month + 12 * a - 3
      in day + (153 * m + 2) sdiv 5 + 365 * y + y sdiv 4 - y sdiv 100 + y sdiv 400 - 32045)"

text \<open>The three output parameters are returned as the triple (year, month, day).\<close>

definition jdn_to_gregorian :: "int \<Rightarrow> int \<times> int \<times> int" where
  "jdn_to_gregorian jdn =
     (let a = jdn + 32044;
          b = (4 * a + 3) sdiv 146097;
          c = a - (b * 146097) sdiv 4;
          d = (4 * c + 3) sdiv 1461;
          e = c - (1461 * d) sdiv 4;
          m = (5 * e + 2) sdiv 153
      in (b * 100 + d - 4800 + m sdiv 10,
          m + 3 - 12 * (m sdiv 10),
          e - (153 * m + 2) sdiv 5 + 1))"

subsection \<open>Ethiopian date and Julian Day Number\<close>

definition jdn_to_ethiopian :: "int \<Rightarrow> int \<times> int \<times> int" where
  "jdn_to_ethiopian jdn =
     (let days_since_epoch = jdn - ETHIOPIAN_EPOCH;
          era = days_since_epoch sdiv 1461;
          year_of_era0 = (days_since_epoch smod 1461) sdiv 365;
          day_of_year0 = (days_since_epoch smod 1461) smod 365;
          year_of_era = (if year_of_era0 = 4 then 3 else year_of_era0);
          day_of_year = (if year_of_era0 = 4 then 365 else day_of_year0);
          year = 4 * era + year_of_era + 1
      in if day_of_year < 360
         then (year, day_of_year sdiv 30 + 1, day_of_year smod 30 + 1)
         else (let day = day_of_year - 360 + 1;
                   is_leap = (year smod 4 = 3);
                   max_days = (if is_leap then 6 else 5)
               in (year, 13, if day > max_days then max_days else day)))"

text \<open>
  The same function with the statement \<open>if (*day > max_days) *day = max_days;\<close> of its
  month-13 branch taken out: what the function returns when the clamp is removed.
\<close>

definition jdn_to_ethiopian_unclamped :: "int \<Rightarrow> int \<times> int \<times> int" where
  "jdn_to_ethiopian_unclamped jdn =
     (let days_since_epoch = jdn - ETHIOPIAN_EPOCH;
          era = days_since_epoch sdiv 1461;
          year_of_era0 = (days_since_epoch smod 1461) sdiv 365;
          day_of_year0 = (days_since_epoch smod 1461) smod 365;
          year_of_era = (if year_of_era0 = 4 then 3 else year_of_era0);
          day_of_year = (if year_of_era0 = 4 then 365 else day_of_year0);
          year = 4 * era + year_of_era + 1
      in if day_of_year < 360
         then (year, day_of_year sdiv 30 + 1, day_of_year smod 30 + 1)
         else (year, 13, day_of_year - 360 + 1))"

definition ethiopian_to_jdn :: "int \<Rightarrow> int \<Rightarrow> int \<Rightarrow> int" where
  "ethiopian_to_jdn year month day =
     (let era = (year - 1) sdiv 4;
          year_of_era = (year - 1) smod 4;
          day_of_year = (if month \<le> 12 then (month - 1) * 30 + (day - 1)
                         else 360 + (day - 1))
      in ETHIOPIAN_EPOCH + era * 1461 + year_of_era * 365 + day_of_year)"

subsection \<open>PostgreSQL dates\<close>

definition dateadt_to_gregorian :: "int \<Rightarrow> int \<times> int \<times> int" where
  "dateadt_to_gregorian date_val = jdn_to_gregorian (date_val + POSTGRES_EPOCH_JDATE)"

definition gregorian_to_dateadt :: "int \<Rightarrow> int \<Rightarrow> int \<Rightarrow> int" where
  "gregorian_to_dateadt year month day = gregorian_to_jdn year month day - POSTGRES_EPOCH_JDATE"

subsection \<open>The SQL functions\<close>

text \<open>
  Modelled from the spec: \<open>timestamp_date\<close> is PostgreSQL's own function and is missing
  from the repository. Sections 3 and 4.3 of the specification describe it as the split of
  a timestamp into a date and a time-of-day offset that is non-negative and shorter than
  one day: the date is the timestamp divided by the length of a day, rounded down. (The
  infinite timestamps and those outside PostgreSQL's range are not modelled.)
\<close>

definition timestamp_date :: "int \<Rightarrow> int" where
  "timestamp_date timestamp_val = timestamp_val div USECS_PER_DAY"

text \<open>A \<open>NULL\<close> argument is \<open>None\<close>, and so is a \<open>NULL\<close> result.\<close>

definition to_ethiopian_datetime :: "int option \<Rightarrow> int option" where
  "to_ethiopian_datetime arg =
     (case arg of
        None \<Rightarrow> None
      | Some timestamp_val \<Rightarrow>
          (let date_val = timestamp_date timestamp_val;
               time_offset = timestamp_val - date_val * USECS_PER_DAY;
               (greg_year, greg_month, greg_day) = dateadt_to_gregorian date_val;
               jdn = gregorian_to_jdn greg_year greg_month greg_day;
               (eth_year, eth_month, eth_day) = jdn_to_ethiopian jdn;
               jdn2 = ethiopian_to_jdn eth_year eth_month eth_day;
               (greg_year2, greg_month2, greg_day2) = jdn_to_gregorian jdn2;
               eth_date = gregorian_to_dateadt greg_year2 greg_month2 greg_day2
           in Some (eth_date * USECS_PER_DAY + time_offset)))"

text \<open>
  \<open>ereport(ERROR, ...)\<close> leaves the function: each call is a value of \<open>error\<close>, carrying
  the arguments of its message. The text is parsed by the C library's \<open>sscanf\<close>;
  \<open>from_ethiopian_date\<close> is modelled from the three parsed fields on. The statements
  after the validation, which convert the accepted fields to a timestamp at midnight, are
  \<open>from_ethiopian_date_convert\<close>.
\<close>

datatype error =
    Invalid_month int
  | Invalid_day_below_one int
  | Invalid_day_of_30_day_month int int
  | Invalid_day_of_month_13 int int int

definition from_ethiopian_date_convert :: "int \<Rightarrow> int \<Rightarrow> int \<Rightarrow> int" where
  "from_ethiopian_date_convert eth_year eth_month eth_day =
     (let jdn = ethiopian_to_jdn eth_year eth_month eth_day;
          (greg_year, greg_month, greg_day) = jdn_to_gregorian jdn;
          date_val = gregorian_to_dateadt greg_year greg_month greg_day
      in date_val * USECS_PER_DAY)"

definition from_ethiopian_date :: "int \<Rightarrow> int \<Rightarrow> int \<Rightarrow> error + int" where
  "from_ethiopian_date eth_year eth_month eth_day =
     (if eth_month < 1 \<or> eth_month > 13 then Inl (Invalid_month eth_month)
      else if eth_day < 1 then Inl (Invalid_day_below_one eth_day)
      else if eth_month \<le> 12
        then (if eth_day > 30 then Inl (Invalid_day_of_30_day_month eth_day eth_month)
              else Inr (from_ethiopian_date_convert eth_year eth_month eth_day))
      else
        (let is_leap = (eth_year smod 4 = 3);
             max_days = (if is_leap then 6 else 5)
         in if eth_day > max_days
            then Inl (Invalid_day_of_month_13 eth_day max_days eth_year)
            else Inr (from_ethiopian_date_convert eth_year eth_month eth_day)))"

subsection \<open>The formulas of the specification, with floor division\<close>

text \<open>
  Sections 4.1 and 4.2 of the specification, word for word, with every division and
  remainder the mathematical floor division \<open>div\<close> and \<open>mod\<close>.
\<close>

definition spec_gregorianToJdn :: "int \<Rightarrow> int \<Rightarrow> int \<Rightarrow> int" where
  "spec_gregorianToJdn year month day =
     (let a = (14 - month) div 12;
          y = year + 4800 - a;
          m = month + 12 * a - 3
      in day + (153 * m + 2) div 5 + 365 * y + y div 4 - y div 100 + y div 400 - 32045)"

definition spec_jdnToGregorian :: "int \<Rightarrow> int \<times> int \<times> int" where
  "spec_jdnToGregorian jdn =
     (let a = jdn + 32044;
          b = (4 * a + 3) div 146097;
          c = a - (b * 146097) div 4;
          d = (4 * c + 3) div 1461;
          e = c - (1461 * d) div 4;
          m = (5 * e + 2) div 153
      in (b * 100 + d - 4800 + m div 10,
          m + 3 - 12 * (m div 10),
          e - (153 * m + 2) div 5 + 1))"

definition spec_isLeap :: "int \<Rightarrow> bool" where
  "spec_isLeap year = (year mod 4 = 3)"

definition spec_jdnToEthiopian :: "int \<Rightarrow> int \<times> int \<times> int" where
  "spec_jdnToEthiopian jdn =
     (let daysSinceEpoch = jdn - ETHIOPIAN_EPOCH;
          era = daysSinceEpoch div 1461;
          remainder = daysSinceEpoch mod 1461;
          yearOfEra0 = remainder div 365;
          dayOfYear0 = remainder mod 365;
          yearOfEra = (if remainder = 1460 then 3 else yearOfEra0);
          dayOfYear = (if remainder = 1460 then 365 else dayOfYear0);
          year = 4 * era + yearOfEra + 1
      in if dayOfYear < 360
         then (year, dayOfYear div 30 + 1, dayOfYear mod 30 + 1)
         else (year, 13, min (dayOfYear - 360 + 1) (if spec_isLeap year then 6 else 5)))"

text \<open>The invariants of an Ethiopian date, section 3 of the specification.\<close>

definition valid_ethiopian :: "int \<Rightarrow> int \<Rightarrow> int \<Rightarrow> bool" where
  "valid_ethiopian y m d =
     (0 < y \<and> 1 \<le> m \<and> m \<le> 13 \<and> 1 \<le> d \<and>
      (if m \<le> 12 then d \<le> 30 else d \<le> (if y mod 4 = 3 then 6 else 5)))"

text \<open>
  A date of the proleptic Gregorian calendar: the leap year rule and the last day of each
  month.
\<close>

definition gregorian_leap_year :: "int \<Rightarrow> bool" where
  "gregorian_leap_year y = (y mod 4 = 0 \<and> (y mod 100 \<noteq> 0 \<or> y mod 400 = 0))"

definition last_day_of_month :: "int \<Rightarrow> int \<Rightarrow> int" where
  "last_day_of_month y m =
     (if m = 2 then (if gregorian_leap_year y then 29 else 28)
      else if m = 4 \<or> m = 6 \<or> m = 9 \<or> m = 11 then 30
      else 31)"

definition valid_gregorian :: "int \<Rightarrow> int \<Rightarrow> int \<Rightarrow> bool" where
  "valid_gregorian y m d = (1 \<le> m \<and> m \<le> 12 \<and> 1 \<le> d \<and> d \<le> last_day_of_month y m)"

subsection \<open>The range of \<open>int\<close>\<close>

text \<open>
  The values that \<open>gregorian_to_jdn\<close> and \<open>jdn_to_gregorian\<close> compute, every
  subexpression in the order of evaluation, and the range of a 32-bit \<open>int\<close>. Where a value
  leaves the range the C function has no defined result, which is \<open>None\<close> in
  \<open>gregorian_to_jdn_checked\<close> and \<open>jdn_to_gregorian_checked\<close>; where every value is in
  the range, no operation overflows and the result is that of the function on the integers.
\<close>

definition INT_MIN :: int where
  "INT_MIN = - 2147483648"

definition INT_MAX :: int where
  "INT_MAX = 2147483647"

definition in_int_range :: "int \<Rightarrow> bool" where
  "in_int_range v = (INT_MIN \<le> v \<and> v \<le> INT_MAX)"

definition gregorian_to_jdn_values :: "int \<Rightarrow> int \<Rightarrow> int \<Rightarrow> int list" where
  "gregorian_to_jdn_values year month day =
     (let a = (14 - month) sdiv 12;
          y = year + 4800 - a;
          m = month + 12 * a - 3;
          t1 = day + (153 * m + 2) sdiv 5;
          t2 = t1 + 365 * y;
          t3 = t2 + y sdiv 4;
          t4 = t3 - y sdiv 100;
          t5 = t4 + y sdiv 400
      in [14 - month, a, year + 4800, y, 12 * a, month + 12 * a, m,
          153 * m, 153 * m + 2, (153 * m + 2) sdiv 5, t1, 365 * y, t2, y sdiv 4, t3,
          y sdiv 100, t4, y sdiv 400, t5, t5 - 32045])"

definition jdn_to_gregorian_values :: "int \<Rightarrow> int list" where
  "jdn_to_gregorian_values jdn =
     (let a = jdn + 32044;
          b = (4 * a + 3) sdiv 146097;
          c = a - (b * 146097) sdiv 4;
          d = (4 * c + 3) sdiv 1461;
          e = c - (1461 * d) sdiv 4;
          m = (5 * e + 2) sdiv 153
      in [a, 4 * a, 4 * a + 3, b, b * 146097, (b * 146097) sdiv 4, c,
          4 * c, 4 * c + 3, d, 1461 * d, (1461 * d) sdiv 4, e, 5 * e, 5 * e + 2, m,
          153 * m, 153 * m + 2, (153 * m + 2) sdiv 5, e - (153 * m + 2) sdiv 5,
          e - (153 * m + 2) sdiv 5 + 1,
          m sdiv 10, 12 * (m sdiv 10), m + 3, m + 3 - 12 * (m sdiv 10),
          b * 100, b * 100 + d, b * 100 + d - 4800, b * 100 + d - 4800 + m sdiv 10])"

definition gregorian_to_jdn_checked :: "int \<Rightarrow> int \<Rightarrow> int \<Rightarrow> int option" where
  "gregorian_to_jdn_checked year month day =
     (if list_all in_int_range (gregorian_to_jdn_values year month day)
      then Some (gregorian_to_jdn year month day) else None)"

definition jdn_to_gregorian_checked :: "int \<Rightarrow> (int \<times> int \<times> int) option" where
  "jdn_to_gregorian_checked jdn =
     (if list_all in_int_range (jdn_to_gregorian_values jdn)
      then Some (jdn_to_gregorian jdn) else None)"

section \<open>C division on non-negative operands\<close>

lemmas c_division = signed_divide_int_def signed_modulo_int_def

lemma sdiv_nonneg: "0 \<le> a \<Longrightarrow> 0 \<le> b \<Longrightarrow> a sdiv b = a div (b::int)"
  by (simp add: signed_divide_int_def sgn_if)

lemma smod_nonneg: "0 \<le> a \<Longrightarrow> 0 \<le> b \<Longrightarrow> a smod b = a mod (b::int)"
  by (simp add: signed_modulo_int_def sgn_if)

lemma smod_4_eq_3: "(y smod 4 = 3) = (0 \<le> y \<and> y mod 4 = (3::int))"
proof (cases "0 \<le> y")
  case True
  then show ?thesis by (simp add: signed_modulo_int_def sgn_if)
next
  case False
  then have "y smod 4 \<le> 0"
    by (simp add: signed_modulo_int_def sgn_if)
  with False show ?thesis by simp
qed

lemma div_times_le:
  fixes x k :: int
  assumes "0 < k"
  shows "(x div k) * k \<le> x"
proof -
  have "(x div k) * k + x mod k = x" by simp
  moreover have "0 \<le> x mod k" using assms by simp
  ultimately show ?thesis by linarith
qed

section \<open>The epoch and a known date\<close>

text \<open>
  Claim C9. The Ethiopian epoch is a fixed point of both converters:
  \<open>jdn_to_ethiopian 1724221\<close> is (1, 1, 1) and \<open>ethiopian_to_jdn 1 1 1\<close> is 1724221;
  and the Gregorian date 2015-09-11 is converted to the Ethiopian date (2008, 1, 1).
\<close>

theorem epoch_anchor_and_known_point:
  "jdn_to_ethiopian 1724221 = (1, 1, 1) \<and>
   ethiopian_to_jdn 1 1 1 = 1724221 \<and>
   jdn_to_ethiopian (gregorian_to_jdn 2015 9 11) = (2008, 1, 1)"
  unfolding jdn_to_ethiopian_def ethiopian_to_jdn_def gregorian_to_jdn_def Let_def
    ETHIOPIAN_EPOCH_def
  by (simp add: c_division)

section \<open>The Ethiopian converters on the parts of a day count\<close>

text \<open>
  A day count from the epoch on is \<open>1461 * k + 365 * r + n\<close>: \<open>k\<close> whole eras, \<open>r\<close>
  whole years of 365 days and \<open>n\<close> days. The lemmas of this section give the result of
  \<open>jdn_to_ethiopian\<close> for \<open>r \<le> 3\<close> and \<open>n \<le> 364\<close>, and for the one remaining day of
  each era, the last.
\<close>

lemma era_parts:
  fixes k r n :: int
  assumes "0 \<le> k" "0 \<le> r" "0 \<le> n" "365 * r + n < 1461"
  shows "(1461 * k + 365 * r + n) sdiv 1461 = k"
    and "(1461 * k + 365 * r + n) smod 1461 = 365 * r + n"
proof -
  have nonneg: "0 \<le> 1461 * k + 365 * r + n" using assms by simp
  have "(1461 * k + 365 * r + n) div 1461 = k"
    using assms by (intro int_div_pos_eq [where r = "365 * r + n"]) simp_all
  then show "(1461 * k + 365 * r + n) sdiv 1461 = k"
    using nonneg by (simp add: sdiv_nonneg)
  have "(1461 * k + 365 * r + n) mod 1461 = 365 * r + n"
    using assms by (intro int_mod_pos_eq [where q = k]) simp_all
  then show "(1461 * k + 365 * r + n) smod 1461 = 365 * r + n"
    using nonneg by (simp add: smod_nonneg)
qed

lemma year_parts:
  fixes r n :: int
  assumes "0 \<le> r" "0 \<le> n" "n < 365"
  shows "(365 * r + n) sdiv 365 = r" and "(365 * r + n) smod 365 = n"
proof -
  have nonneg: "0 \<le> 365 * r + n" using assms by simp
  have "(365 * r + n) div 365 = r"
    using assms by (intro int_div_pos_eq [where r = n]) simp_all
  then show "(365 * r + n) sdiv 365 = r" using nonneg by (simp add: sdiv_nonneg)
  have "(365 * r + n) mod 365 = n"
    using assms by (intro int_mod_pos_eq [where q = r]) simp_all
  then show "(365 * r + n) smod 365 = n" using nonneg by (simp add: smod_nonneg)
qed

lemma jdn_to_ethiopian_steps:
  assumes "days_since_epoch = jdn - ETHIOPIAN_EPOCH"
    and "era = days_since_epoch sdiv 1461"
    and "yoe = (days_since_epoch smod 1461) sdiv 365"
    and "doy = (days_since_epoch smod 1461) smod 365"
  shows "jdn_to_ethiopian jdn =
     (let year_of_era = (if yoe = 4 then 3 else yoe);
          day_of_year = (if yoe = 4 then 365 else doy);
          year = 4 * era + year_of_era + 1
      in if day_of_year < 360
         then (year, day_of_year sdiv 30 + 1, day_of_year smod 30 + 1)
         else (let day = day_of_year - 360 + 1;
                   is_leap = (year smod 4 = 3);
                   max_days = (if is_leap then 6 else 5)
               in (year, 13, if day > max_days then max_days else day)))"
  unfolding assms jdn_to_ethiopian_def Let_def by (rule refl)

lemma jdn_to_ethiopian_of_parts:
  fixes k r n :: int
  assumes k: "0 \<le> k" and r: "0 \<le> r" "r \<le> 3" and n: "0 \<le> n" "n \<le> 364"
  shows "jdn_to_ethiopian (ETHIOPIAN_EPOCH + 1461 * k + 365 * r + n) =
     (if n < 360 then (4 * k + r + 1, n div 30 + 1, n mod 30 + 1)
      else (4 * k + r + 1, 13, n - 359))"
proof -
  have small: "365 * r + n < 1461" using r n by simp
  have n365: "n < 365" using n by simp
  note era = era_parts [OF k r(1) n(1) small]
  note year = year_parts [OF r(1) n(1) n365]
  have steps: "jdn_to_ethiopian (ETHIOPIAN_EPOCH + 1461 * k + 365 * r + n) =
     (if n < 360
      then (4 * k + r + 1, n sdiv 30 + 1, n smod 30 + 1)
      else (4 * k + r + 1, 13,
            if n - 360 + 1 > (if (4 * k + r + 1) smod 4 = 3 then 6 else 5)
            then (if (4 * k + r + 1) smod 4 = 3 then 6 else 5) else n - 360 + 1))"
    using r
    by (subst jdn_to_ethiopian_steps [where days_since_epoch = "1461 * k + 365 * r + n"
          and era = k and yoe = r and doy = n])
      (simp_all add: era year Let_def)
  show ?thesis using n by (simp add: steps sdiv_nonneg smod_nonneg)
qed

lemma jdn_to_ethiopian_last_day_of_era:
  fixes k :: int
  assumes k: "0 \<le> k"
  shows "jdn_to_ethiopian (ETHIOPIAN_EPOCH + 1461 * k + 1460) = (4 * k + 4, 13, 5)"
proof -
  have era: "(1461 * k + 1460) sdiv 1461 = k" "(1461 * k + 1460) smod 1461 = 1460"
    using era_parts [OF k, of 4 0] by simp_all
  have last: "(1460::int) sdiv 365 = 4" "(1460::int) smod 365 = 0"
    by (simp_all add: c_division)
  have "jdn_to_ethiopian (ETHIOPIAN_EPOCH + 1461 * k + 1460) =
     (let year_of_era = (if (4::int) = 4 then 3 else 4);
          day_of_year = (if (4::int) = 4 then 365 else 0);
          year = 4 * k + year_of_era + 1
      in if day_of_year < 360
         then (year, day_of_year sdiv 30 + 1, day_of_year smod 30 + 1)
         else (let day = day_of_year - 360 + 1;
                   is_leap = (year smod 4 = 3);
                   max_days = (if is_leap then 6 else 5)
               in (year, 13, if day > max_days then max_days else day)))"
    by (rule jdn_to_ethiopian_steps [where days_since_epoch = "1461 * k + 1460"])
      (simp_all add: era last)
  then show ?thesis by (simp add: Let_def smod_4_eq_3)
qed

lemma ethiopian_to_jdn_of_parts:
  assumes "0 < y"
  shows "ethiopian_to_jdn y m d =
     ETHIOPIAN_EPOCH + 1461 * ((y - 1) div 4) + 365 * ((y - 1) mod 4) +
     (if m \<le> 12 then (m - 1) * 30 + (d - 1) else 360 + (d - 1))"
  unfolding ethiopian_to_jdn_def Let_def using assms
  by (simp add: sdiv_nonneg smod_nonneg)

lemma year_of_parts:
  fixes y :: int
  shows "4 * ((y - 1) div 4) + (y - 1) mod 4 + 1 = y"
  by simp

section \<open>The two leap year rules of the Ethiopian converter\<close>

text \<open>
  \<open>jdn_to_ethiopian\<close> gives the 366th day to the fourth year of each 1461-day era, the
  year with \<open>year % 4 == 0\<close>; its own clamp, the validator of \<open>from_ethiopian_date\<close>
  and the header comment take the leap year to be the one with \<open>year % 4 == 3\<close>, the
  third year of the era, and \<open>ethiopian_to_jdn\<close> gives every year of an era 365 days.
  The theorems of this section evaluate the functions where the two rules meet.
\<close>

text \<open>
  Claim C10. \<open>ethiopian_to_jdn\<close> is not injective on the Ethiopian dates that satisfy
  the invariants of the specification: for every leap year \<open>L\<close> (positive, with
  \<open>L mod 4 = 3\<close>) the sixth day of month 13 of year \<open>L\<close> and the first day of month 1
  of year \<open>L + 1\<close> are both valid dates and have the same Julian Day Number.
\<close>

theorem leap_day_and_new_year_share_jdn:
  assumes "0 < L" and "L mod 4 = 3"
  shows "valid_ethiopian L 13 6 \<and> valid_ethiopian (L + 1) 1 1 \<and>
    ethiopian_to_jdn L 13 6 = ethiopian_to_jdn (L + 1) 1 1 \<and>
    \<not> inj_on (\<lambda>(y, m, d). ethiopian_to_jdn y m d) {(y, m, d). valid_ethiopian y m d}"
proof -
  have dm: "(L - 1) div 4 = L div 4" "(L - 1) mod 4 = 2" "L mod 4 = 3"
    using assms by presburger+
  have same: "ethiopian_to_jdn L 13 6 = ethiopian_to_jdn (L + 1) 1 1"
    unfolding ethiopian_to_jdn_def Let_def using assms(1) dm
    by (simp add: sdiv_nonneg smod_nonneg)
  have v1: "valid_ethiopian L 13 6" and v2: "valid_ethiopian (L + 1) 1 1"
    using assms by (simp_all add: valid_ethiopian_def)
  have "\<not> inj_on (\<lambda>(y, m, d). ethiopian_to_jdn y m d) {(y, m, d). valid_ethiopian y m d}"
  proof
    assume "inj_on (\<lambda>(y, m, d). ethiopian_to_jdn y m d) {(y, m, d). valid_ethiopian y m d}"
    from inj_onD [OF this, of "(L, 13, 6)" "(L + 1, 1, 1)"] same v1 v2
    show False by simp
  qed
  with same v1 v2 show ?thesis by simp
qed

theorem leap_day_and_new_year_share_jdn_witness:
  "(0::int) < 3 \<and> (3::int) mod 4 = 3 \<and> ethiopian_to_jdn 3 13 6 = ethiopian_to_jdn 4 1 1"
proof -
  have h1: "(0::int) < 3" and h2: "(3::int) mod 4 = 3" by simp_all
  show ?thesis using h1 h2 leap_day_and_new_year_share_jdn [OF h1 h2] by simp
qed

text \<open>
  Claim C1 says that \<open>jdn_to_ethiopian (ethiopian_to_jdn y m d)\<close> is \<open>(y, m, d)\<close> for
  every Ethiopian date that satisfies the invariants. The date (3, 13, 6), the sixth day
  of month 13 of the leap year 3, satisfies them, and the code returns (4, 1, 1) for it.
\<close>

theorem ethiopian_round_trip_at_leap_day:
  "valid_ethiopian 3 13 6 \<and> ethiopian_to_jdn 3 13 6 = 1725316 \<and>
   jdn_to_ethiopian 1725316 = (4, 1, 1)"
  unfolding valid_ethiopian_def jdn_to_ethiopian_def ethiopian_to_jdn_def Let_def
    ETHIOPIAN_EPOCH_def
  by (simp add: c_division)

text \<open>
  The round trip of an Ethiopian date holds for every valid date but the sixth day of
  month 13, and that day comes back as the first day of the next year.
\<close>

lemma ethiopian_round_trip_except_leap_day:
  assumes valid: "valid_ethiopian y m d" and not_leap_day: "\<not> (m = 13 \<and> d = 6)"
  shows "jdn_to_ethiopian (ethiopian_to_jdn y m d) = (y, m, d)"
proof -
  from valid have y: "0 < y" and m: "1 \<le> m" "m \<le> 13" and d: "1 \<le> d"
    by (simp_all add: valid_ethiopian_def)
  define k where "k = (y - 1) div 4"
  define r where "r = (y - 1) mod 4"
  define n where "n = (if m \<le> 12 then (m - 1) * 30 + (d - 1) else 360 + (d - 1))"
  have k: "0 \<le> k" using y by (simp add: k_def)
  have r: "0 \<le> r" "r \<le> 3" by (simp_all add: r_def)
  have year: "4 * k + r + 1 = y" unfolding k_def r_def by (rule year_of_parts)
  have jdn: "ethiopian_to_jdn y m d = ETHIOPIAN_EPOCH + 1461 * k + 365 * r + n"
    using ethiopian_to_jdn_of_parts [OF y, of m d] by (simp add: k_def r_def n_def)
  show ?thesis
  proof (cases "m \<le> 12")
    case True
    with valid have d30: "d \<le> 30" by (simp add: valid_ethiopian_def)
    have n_eq: "n = 30 * (m - 1) + (d - 1)" using True by (simp add: n_def)
    have n_range: "0 \<le> n" "n \<le> 364" "n < 360" using True m d d30 by (simp_all add: n_eq)
    have "n div 30 = m - 1"
      unfolding n_eq using d d30 by (intro int_div_pos_eq [where r = "d - 1"]) simp_all
    moreover have "n mod 30 = d - 1"
      unfolding n_eq using d d30 by (intro int_mod_pos_eq [where q = "m - 1"]) simp_all
    ultimately have "(4 * k + r + 1, n div 30 + 1, n mod 30 + 1) = (y, m, d)"
      by (simp add: year)
    with jdn_to_ethiopian_of_parts [OF k r n_range(1,2)] n_range(3)
    show ?thesis by (simp only: jdn if_True)
  next
    case False
    with m have m13: "m = 13" by simp
    with valid not_leap_day have d5: "d \<le> 5"
      by (auto simp add: valid_ethiopian_def split: if_splits)
    have n_eq: "n = 359 + d" using False by (simp add: n_def)
    have n_range: "0 \<le> n" "n \<le> 364" "\<not> n < 360" using d d5 by (simp_all add: n_eq)
    have "(4 * k + r + 1, 13, n - 359) = (y, m, d)"
      by (simp add: year m13 n_eq)
    with jdn_to_ethiopian_of_parts [OF k r n_range(1,2)] n_range(3)
    show ?thesis by (simp only: jdn if_False)
  qed
qed

lemma ethiopian_round_trip_leap_day:
  assumes "0 < L" and "L mod 4 = 3"
  shows "jdn_to_ethiopian (ethiopian_to_jdn L 13 6) = (L + 1, 1, 1)"
proof -
  define k where "k = (L - 1) div 4"
  have k: "0 \<le> k" using assms(1) by (simp add: k_def)
  have r: "(L - 1) mod 4 = 2" using assms by presburger
  have year: "4 * k + 2 + 1 = L" using year_of_parts [of L] by (simp add: k_def r)
  have jdn: "ethiopian_to_jdn L 13 6 = ETHIOPIAN_EPOCH + 1461 * k + 365 * 3 + 0"
    using ethiopian_to_jdn_of_parts [OF assms(1), of 13 6] by (simp add: k_def r)
  have "jdn_to_ethiopian (ETHIOPIAN_EPOCH + 1461 * k + 365 * 3 + 0) = (L + 1, 1, 1)"
    using jdn_to_ethiopian_of_parts [OF k, of 3 0] year by simp
  then show ?thesis by (simp only: jdn)
qed

text \<open>
  Claim C7 says that the day after the last day of month 13 of a positive year \<open>y\<close>
  (day 6 if \<open>y mod 4 = 3\<close>, day 5 otherwise) is converted to \<open>(y + 1, 1, 1)\<close>. For the
  leap year 3 the code returns (4, 1, 2), and for year 4 it returns (4, 13, 5), a day
  of the same year.
\<close>

theorem day_after_month_13_of_years_3_and_4:
  "jdn_to_ethiopian (ethiopian_to_jdn 3 13 6 + 1) = (4, 1, 2) \<and>
   jdn_to_ethiopian (ethiopian_to_jdn 4 13 5 + 1) = (4, 13, 5)"
  unfolding jdn_to_ethiopian_def ethiopian_to_jdn_def Let_def ETHIOPIAN_EPOCH_def
  by (simp add: c_division)

text \<open>
  The day after month 13 is the first day of the next year for the first two years of an
  era.
\<close>

lemma month_13_boundary:
  assumes y: "0 < y" and early: "y mod 4 = 1 \<or> y mod 4 = 2"
  shows "jdn_to_ethiopian (ethiopian_to_jdn y 13 5 + 1) = (y + 1, 1, 1)"
proof -
  define k where "k = (y - 1) div 4"
  define r where "r = (y - 1) mod 4"
  have k: "0 \<le> k" using y by (simp add: k_def)
  have r: "0 \<le> r + 1" "r + 1 \<le> 3" using early unfolding r_def by presburger+
  have year: "4 * k + r + 1 = y" unfolding k_def r_def by (rule year_of_parts)
  have jdn: "ethiopian_to_jdn y 13 5 + 1 = ETHIOPIAN_EPOCH + 1461 * k + 365 * (r + 1) + 0"
    using ethiopian_to_jdn_of_parts [OF y, of 13 5] by (simp add: k_def r_def)
  have "4 * k + (r + 1) + 1 = y + 1" using year by simp
  with jdn_to_ethiopian_of_parts [OF k r, of 0]
  have "jdn_to_ethiopian (ETHIOPIAN_EPOCH + 1461 * k + 365 * (r + 1) + 0) = (y + 1, 1, 1)"
    by simp
  then show ?thesis by (simp only: jdn)
qed

text \<open>
  Claim C3, amended. For every Julian Day Number at or after the Ethiopian epoch whose
  distance from the epoch is 1460 modulo 1461, \<open>jdn_to_ethiopian\<close> returns the last day
  of the fourth year of the era: month 13, day 5, and the year \<open>4 * era + 4\<close>, which is
  a multiple of 4.
\<close>

theorem last_day_of_era_is_day_5_of_fourth_year:
  assumes "ETHIOPIAN_EPOCH \<le> jdn" and "(jdn - ETHIOPIAN_EPOCH) mod 1461 = 1460"
  shows "jdn_to_ethiopian jdn = (4 * ((jdn - ETHIOPIAN_EPOCH) div 1461) + 4, 13, 5) \<and>
    (4 * ((jdn - ETHIOPIAN_EPOCH) div 1461) + 4) mod 4 = 0"
proof -
  define k where "k = (jdn - ETHIOPIAN_EPOCH) div 1461"
  have k: "0 \<le> k" using assms(1) by (simp add: k_def)
  have "jdn - ETHIOPIAN_EPOCH = 1461 * k + (jdn - ETHIOPIAN_EPOCH) mod 1461"
    by (simp add: k_def)
  then have jdn: "jdn = ETHIOPIAN_EPOCH + 1461 * k + 1460" using assms(2) by simp
  have "jdn_to_ethiopian (ETHIOPIAN_EPOCH + 1461 * k + 1460) = (4 * k + 4, 13, 5)"
    using k by (rule jdn_to_ethiopian_last_day_of_era)
  then have "jdn_to_ethiopian jdn = (4 * k + 4, 13, 5)" by (simp only: jdn)
  then show ?thesis by (simp add: k_def)
qed

theorem last_day_of_era_is_day_5_of_fourth_year_witness:
  "ETHIOPIAN_EPOCH \<le> 2451798 \<and> (2451798 - ETHIOPIAN_EPOCH) mod 1461 = 1460 \<and>
   jdn_to_ethiopian 2451798 = (1992, 13, 5) \<and> (1992::int) mod 4 = 0"
proof -
  have h1: "ETHIOPIAN_EPOCH \<le> 2451798" by (simp add: ETHIOPIAN_EPOCH_def)
  have h2: "(2451798 - ETHIOPIAN_EPOCH) mod 1461 = 1460" by (simp add: ETHIOPIAN_EPOCH_def)
  have "4 * ((2451798 - ETHIOPIAN_EPOCH) div 1461) + 4 = 1992"
    by (simp add: ETHIOPIAN_EPOCH_def)
  with h1 h2 last_day_of_era_is_day_5_of_fourth_year [OF h1 h2] show ?thesis by simp
qed

text \<open>
  Claim C3 as it is written says month 13, day 6 and a year with \<open>year mod 4 = 3\<close>. At
  1727142, the last day of the second era, the function returns day 5 of month 13 of
  year 8, and 8 is a multiple of 4.
\<close>

theorem last_day_of_second_era:
  "ETHIOPIAN_EPOCH \<le> 1727142 \<and> (1727142 - ETHIOPIAN_EPOCH) mod 1461 = 1460 \<and>
   jdn_to_ethiopian 1727142 = (8, 13, 5)"
  unfolding jdn_to_ethiopian_def Let_def ETHIOPIAN_EPOCH_def
  by (simp add: c_division)

text \<open>
  Claim C2 says that the clamp of the month-13 branch is never executed for a Julian
  Day Number at or after the epoch, so that removing it changes no output. At 1725681,
  the last day of the first era, the day computed before the clamp is 6 and the maximum
  is 5: the function without the clamp returns (4, 13, 6), the function returns
  (4, 13, 5).
\<close>

theorem clamp_executed_on_last_day_of_first_era:
  "ETHIOPIAN_EPOCH \<le> 1725681 \<and>
   jdn_to_ethiopian_unclamped 1725681 = (4, 13, 6) \<and>
   jdn_to_ethiopian 1725681 = (4, 13, 5)"
  unfolding jdn_to_ethiopian_def jdn_to_ethiopian_unclamped_def Let_def ETHIOPIAN_EPOCH_def
  by (simp add: c_division)

text \<open>
  Claim C4 says that \<open>to_ethiopian_datetime\<close> returns its input unchanged. The
  timestamp 21902400000000 is noon of 2000-09-10, the date 253 days after 2000-01-01 and the
  last day of an era; the function returns noon of the day before.
\<close>

theorem to_ethiopian_datetime_moves_last_day_of_era:
  "to_ethiopian_datetime (Some 21902400000000) = Some 21816000000000 \<and>
   (21902400000000::int) - 21816000000000 = USECS_PER_DAY"
proof -
  have date: "timestamp_date 21902400000000 = 253"
    by (simp add: timestamp_date_def USECS_PER_DAY_def)
  have greg: "dateadt_to_gregorian 253 = (2000, 9, 10)"
    unfolding dateadt_to_gregorian_def POSTGRES_EPOCH_JDATE_def jdn_to_gregorian_def Let_def
    by (simp add: c_division)
  have jdn: "gregorian_to_jdn 2000 9 10 = 2451798"
    unfolding gregorian_to_jdn_def Let_def by (simp add: c_division)
  have eth: "jdn_to_ethiopian 2451798 = (1992, 13, 5)"
    unfolding jdn_to_ethiopian_def ETHIOPIAN_EPOCH_def Let_def by (simp add: c_division)
  have jdn2: "ethiopian_to_jdn 1992 13 5 = 2451797"
    unfolding ethiopian_to_jdn_def ETHIOPIAN_EPOCH_def Let_def by (simp add: c_division)
  have greg2: "jdn_to_gregorian 2451797 = (2000, 9, 9)"
    unfolding jdn_to_gregorian_def Let_def by (simp add: c_division)
  have dateadt2: "gregorian_to_dateadt 2000 9 9 = 252"
    unfolding gregorian_to_dateadt_def POSTGRES_EPOCH_JDATE_def gregorian_to_jdn_def Let_def
    by (simp add: c_division)
  show ?thesis
    unfolding to_ethiopian_datetime_def Let_def
    by (simp add: date greg jdn eth jdn2 greg2 dateadt2 USECS_PER_DAY_def)
qed

text \<open>
  From the epoch on, converting a Julian Day Number to an Ethiopian date and back gives the
  number itself, but on the last day of each era, where it gives the day before.
\<close>

lemma jdn_round_trip:
  assumes "ETHIOPIAN_EPOCH \<le> jdn"
  shows "(case jdn_to_ethiopian jdn of (y, m, d) \<Rightarrow> ethiopian_to_jdn y m d) =
     (if (jdn - ETHIOPIAN_EPOCH) mod 1461 = 1460 then jdn - 1 else jdn)"
proof -
  define k where "k = (jdn - ETHIOPIAN_EPOCH) div 1461"
  define R where "R = (jdn - ETHIOPIAN_EPOCH) mod 1461"
  have k: "0 \<le> k" using assms by (simp add: k_def)
  have R: "0 \<le> R" "R \<le> 1460" by (simp_all add: R_def)
  have jdn: "jdn = ETHIOPIAN_EPOCH + 1461 * k + R" by (simp add: k_def R_def)
  have era: "(4 * k + x + 1 - 1) div 4 = k" "(4 * k + x + 1 - 1) mod 4 = x"
    if "0 \<le> x" "x \<le> 3" for x :: int
    using that by simp_all
  show ?thesis
  proof (cases "R = 1460")
    case True
    have "jdn_to_ethiopian jdn = (4 * k + 4, 13, 5)"
      using jdn_to_ethiopian_last_day_of_era [OF k] by (simp add: jdn True)
    moreover have "ethiopian_to_jdn (4 * k + 4) 13 5 = ETHIOPIAN_EPOCH + 1461 * k + 1459"
      using k era [of 3] by (subst ethiopian_to_jdn_of_parts) simp_all
    ultimately show ?thesis using True by (simp add: R_def [symmetric] jdn)
  next
    case False
    define r where "r = R div 365"
    define n where "n = R mod 365"
    have r: "0 \<le> r" "r \<le> 3" using R False by (simp_all add: r_def)
    have n: "0 \<le> n" "n \<le> 364" by (simp_all add: n_def)
    have R_eq: "R = 365 * r + n" by (simp add: r_def n_def)
    have jdn': "jdn = ETHIOPIAN_EPOCH + 1461 * k + 365 * r + n" by (simp add: jdn R_eq)
    have conv: "jdn_to_ethiopian jdn =
       (if n < 360 then (4 * k + r + 1, n div 30 + 1, n mod 30 + 1)
        else (4 * k + r + 1, 13, n - 359))"
      unfolding jdn' by (rule jdn_to_ethiopian_of_parts [OF k r n])
    have months: "ethiopian_to_jdn (4 * k + r + 1) (n div 30 + 1) (n mod 30 + 1) =
        ETHIOPIAN_EPOCH + 1461 * k + 365 * r + n" if "n < 360"
    proof -
      have "n div 30 \<le> 11" using that by simp
      then show ?thesis
        using k r era [OF r] by (subst ethiopian_to_jdn_of_parts) simp_all
    qed
    have pagume: "ethiopian_to_jdn (4 * k + r + 1) 13 (n - 359) =
        ETHIOPIAN_EPOCH + 1461 * k + 365 * r + n"
      using k r era [OF r] by (subst ethiopian_to_jdn_of_parts) simp_all
    have lhs: "(case jdn_to_ethiopian jdn of (y, m, d) \<Rightarrow> ethiopian_to_jdn y m d) =
        ETHIOPIAN_EPOCH + 1461 * k + 365 * r + n"
      using months pagume by (simp add: conv)
    have rhs: "(if (jdn - ETHIOPIAN_EPOCH) mod 1461 = 1460 then jdn - 1 else jdn) = jdn"
      using False by (simp add: R_def)
    show ?thesis unfolding rhs by (rule trans [OF lhs jdn' [symmetric]])
  qed
qed

section \<open>Truncating division before the epoch\<close>

text \<open>
  Claim C5 says that every division and remainder of the converters is floor division,
  also on a negative operand, so that each function returns what the formulas of the
  specification give with floor division. At 1724220, the day before the Ethiopian
  epoch, \<open>jdn_to_ethiopian\<close> returns (1, 1, 0), and the formulas of the specification
  give (0, 13, 5).
\<close>

theorem jdn_to_ethiopian_truncates_before_epoch:
  "jdn_to_ethiopian 1724220 = (1, 1, 0) \<and> spec_jdnToEthiopian 1724220 = (0, 13, 5)"
  unfolding jdn_to_ethiopian_def spec_jdnToEthiopian_def spec_isLeap_def Let_def
    ETHIOPIAN_EPOCH_def
  by (simp add: c_division)

text \<open>
  From the epoch on no operand is negative, and the function returns what the formulas
  give.
\<close>

lemma jdn_to_ethiopian_floor_agree:
  assumes "ETHIOPIAN_EPOCH \<le> jdn"
  shows "jdn_to_ethiopian jdn = spec_jdnToEthiopian jdn"
proof -
  define D where "D = jdn - ETHIOPIAN_EPOCH"
  define R where "R = D mod 1461"
  have D: "0 \<le> D" using assms by (simp add: D_def)
  have R: "0 \<le> R" "R \<le> 1460" by (simp_all add: R_def)
  have era: "0 \<le> D div 1461" using D by simp
  have yoe: "0 \<le> R div 365" "R div 365 \<le> 4" using R by simp_all
  have doy: "0 \<le> R mod 365" by simp
  have last: "(R div 365 = 4) = (R = 1460)" using R by auto
  have year: "0 \<le> 4 * (D div 1461) + 3 + 1" "0 \<le> 4 * (D div 1461) + R div 365 + 1"
    using era yoe by simp_all
  have "jdn_to_ethiopian jdn =
     (let year_of_era = (if R div 365 = 4 then 3 else R div 365);
          day_of_year = (if R div 365 = 4 then 365 else R mod 365);
          year = 4 * (D div 1461) + year_of_era + 1
      in if day_of_year < 360
         then (year, day_of_year sdiv 30 + 1, day_of_year smod 30 + 1)
         else (let day = day_of_year - 360 + 1;
                   is_leap = (year smod 4 = 3);
                   max_days = (if is_leap then 6 else 5)
               in (year, 13, if day > max_days then max_days else day)))"
    using D R by (intro jdn_to_ethiopian_steps [where days_since_epoch = D])
      (simp_all add: D_def [symmetric] R_def [symmetric] sdiv_nonneg smod_nonneg)
  also have "\<dots> = spec_jdnToEthiopian jdn"
    unfolding spec_jdnToEthiopian_def spec_isLeap_def Let_def D_def [symmetric]
      R_def [symmetric] last
    using year doy by (simp add: sdiv_nonneg smod_nonneg smod_4_eq_3 min_def)
  finally show ?thesis .
qed

section \<open>The field validator\<close>

text \<open>
  Claim C8. \<open>from_ethiopian_date\<close> rejects the fields (year, month, day), whatever the
  year, exactly when the month is outside 1..13, or the day is below 1, or the month is at
  most 12 and the day above 30, or the month is 13 and the day above 6 (if
  \<open>year % 4 == 3\<close>, with the remainder of C as the validator computes it) or 5
  (otherwise). No bound on the year is among the conditions. Day 6 of month 13 is accepted
  for year 3 and rejected for year 4.
\<close>

theorem field_validator_rejects_iff:
  "(isl (from_ethiopian_date y m d) \<longleftrightarrow>
      (m < 1 \<or> 13 < m \<or> d < 1 \<or> (m \<le> 12 \<and> 30 < d) \<or>
       (m = 13 \<and> (if y smod 4 = 3 then 6 else 5) < d))) \<and>
    \<not> isl (from_ethiopian_date 3 13 6) \<and> isl (from_ethiopian_date 4 13 6)"
  by (simp add: from_ethiopian_date_def Let_def c_division)

theorem field_validator_rejects_iff_witness:
  "isl (from_ethiopian_date 2016 13 6) \<and> \<not> isl (from_ethiopian_date 2016 13 5) \<and>
   isl (from_ethiopian_date (- 1) 13 6)"
  using field_validator_rejects_iff [of 2016 13 6] field_validator_rejects_iff [of 2016 13 5]
    field_validator_rejects_iff [of "- 1" 13 6]
  by (simp add: c_division)

text \<open>
  For a year that is not negative the remainder of C is the remainder of floor division
  (lemma \<open>smod_4_eq_3\<close>): month 13 has six days exactly when \<open>year mod 4 = 3\<close>.
\<close>

lemma from_ethiopian_date_rejects_nonneg_year:
  assumes "0 \<le> y"
  shows "isl (from_ethiopian_date y m d) \<longleftrightarrow>
    (m < 1 \<or> 13 < m \<or> d < 1 \<or> (m \<le> 12 \<and> 30 < d) \<or>
     (m = 13 \<and> (if y mod 4 = 3 then 6 else 5) < d))"
  using assms by (simp add: from_ethiopian_date_def Let_def smod_4_eq_3)

section \<open>The Gregorian round trip\<close>

lemma month_of_day_index:
  fixes mm dd :: int
  assumes "0 \<le> mm" "mm \<le> 11" "0 \<le> dd" "dd \<le> 30"
    and "mm = 1 \<or> mm = 3 \<or> mm = 6 \<or> mm = 8 \<Longrightarrow> dd \<le> 29"
    and "mm = 11 \<Longrightarrow> dd \<le> 28"
  shows "(5 * ((153 * mm + 2) div 5 + dd) + 2) div 153 = mm"
proof -
  from assms(1,2) have "mm = 0 \<or> mm = 1 \<or> mm = 2 \<or> mm = 3 \<or> mm = 4 \<or> mm = 5 \<or>
      mm = 6 \<or> mm = 7 \<or> mm = 8 \<or> mm = 9 \<or> mm = 10 \<or> mm = 11"
    by arith
  then show ?thesis
    using assms(3-6) by (elim disjE; simp; arith)
qed

lemma jdn_to_gregorian_steps:
  assumes "a = jdn + 32044"
    and "b = (4 * a + 3) sdiv 146097"
    and "c = a - (b * 146097) sdiv 4"
    and "d = (4 * c + 3) sdiv 1461"
    and "e = c - (1461 * d) sdiv 4"
    and "m = (5 * e + 2) sdiv 153"
  shows "jdn_to_gregorian jdn =
     (b * 100 + d - 4800 + m sdiv 10, m + 3 - 12 * (m sdiv 10), e - (153 * m + 2) sdiv 5 + 1)"
  unfolding assms jdn_to_gregorian_def Let_def by (rule refl)

lemma jdn_to_gregorian_part_values:
  fixes q r e0 :: int
  assumes q: "0 \<le> q" and r: "0 \<le> r" "r < 100" and e0: "0 \<le> e0" "e0 \<le> 365"
    and leap: "e0 = 365 \<longrightarrow> r mod 4 = 3 \<and> (r = 99 \<longrightarrow> q mod 4 = 3)"
    and c0: "c0 = 365 * r + r div 4 + e0"
    and A: "A = 36524 * q + q div 4 + c0"
  shows "(4 * A + 3) sdiv 146097 = q" and "A - (q * 146097) sdiv 4 = c0"
    and "(4 * c0 + 3) sdiv 1461 = r" and "c0 - (1461 * r) sdiv 4 = e0"
    and "0 \<le> c0" and "c0 \<le> 36524" and "0 \<le> A"
proof -
  have r4: "0 \<le> r div 4" "r div 4 \<le> 24" using r by simp_all
  have q4: "0 \<le> q div 4" using q by simp
  have qm: "0 \<le> q mod 4" "q mod 4 \<le> 3" by simp_all
  have rm: "0 \<le> r mod 4" "r mod 4 \<le> 3" by simp_all
  show c0_nonneg: "0 \<le> c0" using r e0 r4 by (simp add: c0)
  show A_nonneg: "0 \<le> A" using q q4 c0_nonneg by (simp add: A)
  show c0_le: "c0 \<le> 36524" using r e0 r4 by (simp add: c0)
  have c0_less: "4 * c0 + 3 - q mod 4 < 146097"
  proof (cases "e0 = 365 \<and> r = 99")
    case True
    with leap have "q mod 4 = 3" by simp
    with c0_le show ?thesis by simp
  next
    case False
    then have "c0 \<le> 36523" using r e0 r4 by (auto simp add: c0)
    with qm show ?thesis by simp
  qed
  have "(4 * A + 3) div 146097 = q"
  proof (rule int_div_pos_eq)
    show "4 * A + 3 = 146097 * q + (4 * c0 + 3 - q mod 4)"
      by (simp add: A minus_mod_eq_mult_div)
    show "0 \<le> 4 * c0 + 3 - q mod 4" using c0_nonneg qm by simp
    show "4 * c0 + 3 - q mod 4 < 146097" by (rule c0_less)
  qed
  then show "(4 * A + 3) sdiv 146097 = q" using A_nonneg by (simp add: sdiv_nonneg)
  have "q * 146097 = 4 * (36524 * q) + q" by simp
  then have "(q * 146097) div 4 = 36524 * q + q div 4" by (simp only: div_mult_self4)
  then show "A - (q * 146097) sdiv 4 = c0" using q by (simp add: A sdiv_nonneg)
  have e0_less: "4 * e0 + 3 - r mod 4 < 1461"
  proof (cases "e0 = 365")
    case True
    with leap have "r mod 4 = 3" by simp
    with True show ?thesis by simp
  next
    case False
    with e0 rm show ?thesis by simp
  qed
  have "(4 * c0 + 3) div 1461 = r"
  proof (rule int_div_pos_eq)
    show "4 * c0 + 3 = 1461 * r + (4 * e0 + 3 - r mod 4)"
      by (simp add: c0 minus_mod_eq_mult_div)
    show "0 \<le> 4 * e0 + 3 - r mod 4" using e0 rm by simp
    show "4 * e0 + 3 - r mod 4 < 1461" by (rule e0_less)
  qed
  then show "(4 * c0 + 3) sdiv 1461 = r" using c0_nonneg by (simp add: sdiv_nonneg)
  have "1461 * r = 4 * (365 * r) + r" by simp
  then have "(1461 * r) div 4 = 365 * r + r div 4" by (simp only: div_mult_self4)
  then show "c0 - (1461 * r) sdiv 4 = e0" using r by (simp add: c0 sdiv_nonneg)
qed

lemma jdn_to_gregorian_of_parts:
  fixes q r e0 :: int
  assumes q: "0 \<le> q" and r: "0 \<le> r" "r < 100" and e0: "0 \<le> e0" "e0 \<le> 365"
    and leap: "e0 = 365 \<longrightarrow> r mod 4 = 3 \<and> (r = 99 \<longrightarrow> q mod 4 = 3)"
    and m: "m = (5 * e0 + 2) div 153"
  shows "jdn_to_gregorian (36524 * q + q div 4 + 365 * r + r div 4 + e0 - 32044) =
     (q * 100 + r - 4800 + m div 10, m + 3 - 12 * (m div 10), e0 - (153 * m + 2) div 5 + 1)"
proof -
  define c0 where "c0 = 365 * r + r div 4 + e0"
  define A where "A = 36524 * q + q div 4 + c0"
  note parts = jdn_to_gregorian_part_values [OF q r e0 leap c0_def A_def]
  have m_nonneg: "0 \<le> m" using e0 by (simp add: m pos_imp_zdiv_nonneg_iff)
  show ?thesis
  proof (rule trans [OF jdn_to_gregorian_steps [where a = A and b = q and c = c0 and d = r
          and e = e0 and m = m]])
    show "A = 36524 * q + q div 4 + 365 * r + r div 4 + e0 - 32044 + 32044"
      by (simp add: A_def c0_def)
    show "q = (4 * A + 3) sdiv 146097" by (simp add: parts)
    show "c0 = A - (q * 146097) sdiv 4" by (simp add: parts)
    show "r = (4 * c0 + 3) sdiv 1461" by (simp add: parts)
    show "e0 = c0 - (1461 * r) sdiv 4" by (simp add: parts)
    show "m = (5 * e0 + 2) sdiv 153" using e0 by (simp add: sdiv_nonneg m)
    show "(q * 100 + r - 4800 + m sdiv 10, m + 3 - 12 * (m sdiv 10),
        e0 - (153 * m + 2) sdiv 5 + 1) =
      (q * 100 + r - 4800 + m div 10, m + 3 - 12 * (m div 10), e0 - (153 * m + 2) div 5 + 1)"
      using m_nonneg by (simp add: sdiv_nonneg)
  qed
qed

lemma gregorian_to_jdn_of_parts:
  fixes y m d :: int
  assumes m: "1 \<le> m" "m \<le> 12"
    and a: "a = (if m \<le> 2 then 1 else 0)"
    and y': "y' = y + 4800 - a" "0 \<le> y'"
    and m': "m' = m + 12 * a - 3"
  shows "gregorian_to_jdn y m d =
     36524 * (y' div 100) + (y' div 100) div 4 + 365 * (y' mod 100) + (y' mod 100) div 4 +
     (d - 1 + (153 * m' + 2) div 5) - 32044"
proof -
  have a_eq: "(14 - m) sdiv 12 = a"
    using m by (simp add: sdiv_nonneg a) arith
  have m'_nonneg: "0 \<le> m'" using m by (simp add: m' a)
  define q where "q = y' div 100"
  define r where "r = y' mod 100"
  have y'_eq: "y' = 100 * q + r" by (simp add: q_def r_def)
  have d4: "y' div 4 = 25 * q + r div 4"
  proof -
    have "y' = 4 * (25 * q) + r" by (simp add: y'_eq)
    then show ?thesis by (simp only: div_mult_self4)
  qed
  have d400: "y' div 400 = q div 4"
    using zdiv_zmult2_eq [of 4 y' 100] by (simp add: q_def)
  have d100: "y' div 100 = q" by (simp add: q_def)
  have lin: "365 * y' = 36500 * q + 365 * r" by (simp add: y'_eq)
  have "gregorian_to_jdn y m d =
      d + (153 * m' + 2) div 5 + 365 * y' + y' div 4 - y' div 100 + y' div 400 - 32045"
    unfolding gregorian_to_jdn_def Let_def a_eq
    using y' m'_nonneg by (simp add: sdiv_nonneg m')
  also have "\<dots> = d + (153 * m' + 2) div 5 + (36500 * q + 365 * r) + (25 * q + r div 4) - q +
      q div 4 - 32045"
    by (simp only: d4 d400 d100 lin)
  also have "\<dots> = 36524 * q + q div 4 + 365 * r + r div 4 +
      (d - 1 + (153 * m' + 2) div 5) - 32044"
    by simp
  finally show ?thesis by (simp add: q_def r_def)
qed

lemma leap_day_parts:
  fixes y :: int
  assumes leap: "gregorian_leap_year y" and y': "y' = y + 4799"
  shows "(y' mod 100) mod 4 = 3 \<and> (y' mod 100 = 99 \<longrightarrow> (y' div 100) mod 4 = 3)"
proof
  from leap have "y mod 4 = 0" by (simp add: gregorian_leap_year_def)
  then have "y' mod 4 = 3" unfolding y' by presburger
  then show "(y' mod 100) mod 4 = 3" by (simp add: mod_mod_cancel)
next
  show "y' mod 100 = 99 \<longrightarrow> (y' div 100) mod 4 = 3"
  proof
    assume r: "y' mod 100 = 99"
    define q where "q = y' div 100"
    have "y' = 100 * q + 99" using r mult_div_mod_eq [of 100 y'] by (simp add: q_def)
    then have y_eq: "y = 100 * (q - 47)" using y' by simp
    then have "y mod 100 = 0" by simp
    with leap have "y mod 400 = 0" by (simp add: gregorian_leap_year_def)
    then have "(100 * (q - 47)) mod (100 * 4) = 0" by (simp add: y_eq)
    then have "100 * ((q - 47) mod 4) = 0" by (simp only: mult_mod_right)
    then have "(q - 47) mod 4 = 0" by simp
    then have "q mod 4 = 3" by presburger
    then show "(y' div 100) mod 4 = 3" by (simp add: q_def)
  qed
qed

lemma valid_gregorian_parts:
  assumes valid: "valid_gregorian y m d"
    and lower: "- 4800 < y \<or> (y = - 4800 \<and> 3 \<le> m)"
    and a: "a = (if m \<le> 2 then 1 else 0)"
    and y': "y' = y + 4800 - a"
    and m': "m' = m + 12 * a - 3"
    and e0: "e0 = d - 1 + (153 * m' + 2) div 5"
  shows "0 \<le> y'" and "0 \<le> m'" and "m' \<le> 11" and "m' div 10 = a"
    and "(5 * e0 + 2) div 153 = m'" and "0 \<le> e0" and "e0 \<le> 365"
    and "e0 = 365 \<longrightarrow>
      (y' mod 100) mod 4 = 3 \<and> (y' mod 100 = 99 \<longrightarrow> (y' div 100) mod 4 = 3)"
proof -
  from valid have m: "1 \<le> m" "m \<le> 12" and d: "1 \<le> d" "d \<le> last_day_of_month y m"
    by (simp_all add: valid_gregorian_def)
  show "0 \<le> y'" using lower by (auto simp add: y' a)
  show m'_range: "0 \<le> m'" "m' \<le> 11" using m by (simp_all add: m' a)
  show "m' div 10 = a" using m by (auto simp add: m' a)
  have d30: "d - 1 \<le> 30" using d by (simp add: last_day_of_month_def split: if_splits)
  have d29: "d - 1 \<le> 29" if "m' = 1 \<or> m' = 3 \<or> m' = 6 \<or> m' = 8"
    using that d m by (auto simp add: last_day_of_month_def m' a split: if_splits)
  have d28: "d - 1 \<le> 28" if "m' = 11"
    using that d m by (auto simp add: last_day_of_month_def m' a split: if_splits)
  show "(5 * e0 + 2) div 153 = m'"
    unfolding e0 add.commute [of "d - 1"]
    using m'_range d d30 d29 d28 by (intro month_of_day_index) simp_all
  have s_range: "0 \<le> (153 * m' + 2) div 5" "(153 * m' + 2) div 5 \<le> 337"
    using m'_range by simp_all
  have s_feb: "(153 * m' + 2) div 5 \<le> 306" if "m' \<noteq> 11"
    using that m'_range by simp
  show "0 \<le> e0" using d s_range by (simp add: e0)
  show "e0 \<le> 365"
  proof (cases "m' = 11")
    case True
    with d28 show ?thesis by (simp add: e0)
  next
    case False
    from s_feb [OF this] d30 show ?thesis by (simp add: e0)
  qed
  show "e0 = 365 \<longrightarrow>
      (y' mod 100) mod 4 = 3 \<and> (y' mod 100 = 99 \<longrightarrow> (y' div 100) mod 4 = 3)"
  proof
    assume that: "e0 = 365"
    have feb: "m' = 11"
    proof (rule ccontr)
      assume "m' \<noteq> 11"
      from s_feb [OF this] d30 that show False by (simp add: e0)
    qed
    then have m2: "m = 2" using m by (auto simp add: m' a split: if_splits)
    from feb that have "d = 29" by (simp add: e0)
    with d m2 have "gregorian_leap_year y"
      by (simp add: last_day_of_month_def split: if_splits)
    moreover have "y' = y + 4799" using m2 by (simp add: y' a)
    ultimately show
      "(y' mod 100) mod 4 = 3 \<and> (y' mod 100 = 99 \<longrightarrow> (y' div 100) mod 4 = 3)"
      by (rule leap_day_parts)
  qed
qed

lemma jdn_to_gregorian_inverts_on_integers:
  assumes valid: "valid_gregorian y m d"
    and lower: "- 4800 < y \<or> (y = - 4800 \<and> 3 \<le> m)"
  shows "jdn_to_gregorian (gregorian_to_jdn y m d) = (y, m, d)"
proof -
  from valid have m: "1 \<le> m" "m \<le> 12" by (simp_all add: valid_gregorian_def)
  define a :: int where "a = (if m \<le> 2 then 1 else 0)"
  define y' where "y' = y + 4800 - a"
  define m' where "m' = m + 12 * a - 3"
  define e0 where "e0 = d - 1 + (153 * m' + 2) div 5"
  note parts = valid_gregorian_parts [OF valid lower a_def y'_def m'_def e0_def]
  have "jdn_to_gregorian (gregorian_to_jdn y m d) =
      jdn_to_gregorian (36524 * (y' div 100) + (y' div 100) div 4 + 365 * (y' mod 100) +
        (y' mod 100) div 4 + e0 - 32044)"
    using gregorian_to_jdn_of_parts [OF m a_def y'_def parts(1) m'_def, of d]
    by (simp add: e0_def)
  also have "\<dots> = ((y' div 100) * 100 + y' mod 100 - 4800 + m' div 10,
      m' + 3 - 12 * (m' div 10), e0 - (153 * m' + 2) div 5 + 1)"
    using parts by (intro jdn_to_gregorian_of_parts) (simp_all add: pos_imp_zdiv_nonneg_iff)
  also have "\<dots> = (y, m, d)"
    by (simp add: parts(4)) (simp add: y'_def m'_def e0_def)
  finally show ?thesis .
qed

text \<open>
  From 1 March of the year -4800 to 18 October of the year 1465102 every value that the two
  functions compute on a valid date is in the range of a 32-bit \<open>int\<close>. The largest is
  \<open>4 * a + 3\<close> in \<open>jdn_to_gregorian\<close>, which is \<open>INT_MAX\<close> on the last of these days.
\<close>

lemma in_int_rangeI: "- 2147483648 \<le> v \<Longrightarrow> v \<le> 2147483647 \<Longrightarrow> in_int_range v"
  by (simp add: in_int_range_def INT_MIN_def INT_MAX_def)

lemma gregorian_to_jdn_in_int_range:
  assumes valid: "valid_gregorian y m d"
    and lower: "- 4800 < y \<or> (y = - 4800 \<and> 3 \<le> m)"
    and upper: "y \<le> 1465102"
  shows "list_all in_int_range (gregorian_to_jdn_values y m d)"
proof -
  from valid have m: "1 \<le> m" "m \<le> 12" and d: "1 \<le> d" "d \<le> last_day_of_month y m"
    by (simp_all add: valid_gregorian_def)
  have d31: "d \<le> 31" using d by (simp add: last_day_of_month_def split: if_splits)
  define a :: int where "a = (if m \<le> 2 then 1 else 0)"
  define y' where "y' = y + 4800 - a"
  define m' where "m' = m + 12 * a - 3"
  define s where "s = (153 * m' + 2) div 5"
  define e0 where "e0 = d - 1 + (153 * m' + 2) div 5"
  note parts = valid_gregorian_parts [OF valid lower a_def y'_def m'_def e0_def]
  have a_range: "0 \<le> a" "a \<le> 1" by (simp_all add: a_def)
  have a_eq: "(14 - m) sdiv 12 = a"
    using m by (simp add: sdiv_nonneg a_def) arith
  have y'_le: "y' \<le> 1469902" using upper a_range by (simp add: y'_def)
  have s_range: "0 \<le> s" "s \<le> 337" using parts(2,3) by (simp_all add: s_def)
  have y4: "0 \<le> y' div 4" "y' div 4 \<le> 367475"
    and y100: "0 \<le> y' div 100" "y' div 100 \<le> 14699"
    and y400: "0 \<le> y' div 400" "y' div 400 \<le> 3674"
    using parts(1) y'_le by simp_all
  have m'_nonneg: "0 \<le> 153 * m' + 2" using parts(2) by simp
  have y_ge: "- 4800 \<le> y" using lower by auto
  have y'_eq: "y + 4800 = y' + a" by (simp add: y'_def)
  have m'_eq: "m + 12 * a = m' + 3" by (simp add: m'_def)
  have "gregorian_to_jdn_values y m d =
     [14 - m, a, y + 4800, y', 12 * a, m + 12 * a, m', 153 * m', 153 * m' + 2, s,
      d + s, 365 * y', d + s + 365 * y', y' div 4, d + s + 365 * y' + y' div 4,
      y' div 100, d + s + 365 * y' + y' div 4 - y' div 100, y' div 400,
      d + s + 365 * y' + y' div 4 - y' div 100 + y' div 400,
      d + s + 365 * y' + y' div 4 - y' div 100 + y' div 400 - 32045]"
    unfolding gregorian_to_jdn_values_def Let_def a_eq y'_def [symmetric] m'_def [symmetric]
    using parts(1) m'_nonneg by (simp add: sdiv_nonneg s_def)
  then show ?thesis
    unfolding y'_eq m'_eq
    by (simp only: list.pred_inject)
      (intro conjI in_int_rangeI TrueI;
        use m d31 d(1) a_range parts(1,2,3) y'_le s_range y4 y100 y400 in linarith)
qed

lemma jdn_to_gregorian_in_int_range:
  assumes valid: "valid_gregorian y m d"
    and lower: "- 4800 < y \<or> (y = - 4800 \<and> 3 \<le> m)"
    and upper: "y < 1465102 \<or> (y = 1465102 \<and> (m < 10 \<or> (m = 10 \<and> d \<le> 18)))"
  shows "list_all in_int_range (jdn_to_gregorian_values (gregorian_to_jdn y m d))"
proof -
  from valid have m: "1 \<le> m" "m \<le> 12" and d: "1 \<le> d" "d \<le> last_day_of_month y m"
    by (simp_all add: valid_gregorian_def)
  have d31: "d \<le> 31" using d by (simp add: last_day_of_month_def split: if_splits)
  define a :: int where "a = (if m \<le> 2 then 1 else 0)"
  define y' where "y' = y + 4800 - a"
  define m' where "m' = m + 12 * a - 3"
  define s where "s = (153 * m' + 2) div 5"
  define e0 where "e0 = d - 1 + (153 * m' + 2) div 5"
  define q where "q = y' div 100"
  define r where "r = y' mod 100"
  define c0 where "c0 = 365 * r + r div 4 + e0"
  define A where "A = 36524 * q + q div 4 + c0"
  note parts = valid_gregorian_parts [OF valid lower a_def y'_def m'_def e0_def]
  have a_range: "0 \<le> a" "a \<le> 1" by (simp_all add: a_def)
  have y_le: "y \<le> 1465102" using upper by auto
  have y'_le: "y' \<le> 1469902" using y_le a_range by (simp add: y'_def)
  have s_range: "0 \<le> s" "s \<le> 337" using parts(2,3) by (simp_all add: s_def)
  have q: "0 \<le> q" "q \<le> 14699" using parts(1) y'_le by (simp_all add: q_def)
  have r: "0 \<le> r" "r < 100" by (simp_all add: r_def)
  have leap: "e0 = 365 \<longrightarrow> r mod 4 = 3 \<and> (r = 99 \<longrightarrow> q mod 4 = 3)"
    using parts(8) by (simp add: q_def r_def)
  note vals = jdn_to_gregorian_part_values [OF q(1) r parts(6,7) leap c0_def A_def]
  have q4: "q div 4 \<le> 3674" using q by simp
  have A_le: "A \<le> 536870911"
  proof (cases "q \<le> 14698")
    case True
    with q4 vals(6) show ?thesis by (simp add: A_def)
  next
    case False
    with q have q_eq: "q = 14699" by simp
    have y'_eq: "y' = 100 * q + r" by (simp add: q_def r_def)
    with y'_le q_eq have r2: "r \<le> 2" by simp
    then have r4_eq: "r div 4 = 0" using r by simp
    have "365 * r + e0 \<le> 961"
    proof (cases "r \<le> 1")
      case True
      with parts(7) show ?thesis by simp
    next
      case False
      with r2 have "r = 2" by simp
      with y'_eq q_eq have "y' = 1469902" by simp
      with y_le a_range have y_eq: "y = 1465102" and a0: "a = 0" by (simp_all add: y'_def)
      from a0 have m3: "3 \<le> m" by (simp add: a_def split: if_splits)
      from upper y_eq have late: "m < 10 \<or> (m = 10 \<and> d \<le> 18)" by simp
      have m'_eq: "m' = m - 3" by (simp add: m'_def a0)
      have "e0 \<le> 231"
      proof (cases "m < 10")
        case True
        then have "153 * m' + 2 \<le> 920" by (simp add: m'_eq)
        then have "(153 * m' + 2) div 5 \<le> 920 div 5" by (rule zdiv_mono1) simp
        with d31 show ?thesis by (simp add: e0_def)
      next
        case False
        with late have "m = 10" and "d \<le> 18" by simp_all
        then show ?thesis by (simp add: e0_def m'_eq)
      qed
      with \<open>r = 2\<close> show ?thesis by simp
    qed
    then show ?thesis by (simp add: A_def c0_def q_eq r4_eq)
  qed
  have jdn: "gregorian_to_jdn y m d + 32044 = A"
    using gregorian_to_jdn_of_parts [OF m a_def y'_def parts(1) m'_def, of d]
    by (simp add: A_def c0_def q_def r_def e0_def)
  have month: "(5 * e0 + 2) sdiv 153 = m'"
    using parts(5,6) by (simp add: sdiv_nonneg)
  have r4: "0 \<le> (1461 * r) sdiv 4" "(1461 * r) sdiv 4 \<le> 36524"
    using r by (simp_all add: sdiv_nonneg)
  have q146: "0 \<le> (q * 146097) sdiv 4" "(q * 146097) sdiv 4 \<le> 536870911"
    using q by (simp_all add: sdiv_nonneg)
  have m10: "0 \<le> m' sdiv 10" "m' sdiv 10 \<le> 1"
    using parts(2,3) by (simp_all add: sdiv_nonneg)
  have s_eq: "(153 * m' + 2) sdiv 5 = s" using parts(2) by (simp add: sdiv_nonneg s_def)
  have "jdn_to_gregorian_values (gregorian_to_jdn y m d) =
     [A, 4 * A, 4 * A + 3, q, q * 146097, (q * 146097) sdiv 4, c0,
      4 * c0, 4 * c0 + 3, r, 1461 * r, (1461 * r) sdiv 4, e0, 5 * e0, 5 * e0 + 2, m',
      153 * m', 153 * m' + 2, s, e0 - s, e0 - s + 1,
      m' sdiv 10, 12 * (m' sdiv 10), m' + 3, m' + 3 - 12 * (m' sdiv 10),
      q * 100, q * 100 + r, q * 100 + r - 4800, q * 100 + r - 4800 + m' sdiv 10]"
    unfolding jdn_to_gregorian_values_def Let_def jdn vals(1,2,3,4) month s_eq
    by (rule refl)
  then show ?thesis
    by (simp only: list.pred_inject)
      (intro conjI in_int_rangeI TrueI;
        use q r vals(5,6,7) A_le parts(2,3,6,7) s_range r4 q146 m10 in linarith)
qed

text \<open>
  Claim C6, amended. For every valid date of the proleptic Gregorian calendar (month in
  1..12, day from 1 to the last day of that month) from 1 March of the year -4800 to
  18 October of the year 1465102, \<open>gregorian_to_jdn\<close> returns without overflow and
  \<open>jdn_to_gregorian\<close>, applied to its result, returns \<open>(y, m, d)\<close> without overflow.
  From the first of these dates on no operand of a division is negative, and C's division
  is floor division; up to the last, no value leaves the range of \<open>int\<close>.
\<close>

theorem gregorian_round_trip:
  assumes valid: "valid_gregorian y m d"
    and lower: "- 4800 < y \<or> (y = - 4800 \<and> 3 \<le> m)"
    and upper: "y < 1465102 \<or> (y = 1465102 \<and> (m < 10 \<or> (m = 10 \<and> d \<le> 18)))"
  shows "gregorian_to_jdn_checked y m d = Some (gregorian_to_jdn y m d) \<and>
    jdn_to_gregorian_checked (gregorian_to_jdn y m d) = Some (y, m, d)"
proof -
  have y_le: "y \<le> 1465102" using upper by auto
  have "list_all in_int_range (gregorian_to_jdn_values y m d)"
    using valid lower y_le by (rule gregorian_to_jdn_in_int_range)
  moreover have "list_all in_int_range (jdn_to_gregorian_values (gregorian_to_jdn y m d))"
    using valid lower upper by (rule jdn_to_gregorian_in_int_range)
  moreover have "jdn_to_gregorian (gregorian_to_jdn y m d) = (y, m, d)"
    using valid lower by (rule jdn_to_gregorian_inverts_on_integers)
  ultimately show ?thesis
    by (simp add: gregorian_to_jdn_checked_def jdn_to_gregorian_checked_def)
qed

theorem gregorian_round_trip_witness:
  "valid_gregorian 2015 9 11 \<and> gregorian_to_jdn_checked 2015 9 11 = Some 2457277 \<and>
   jdn_to_gregorian_checked 2457277 = Some (2015, 9, 11)"
proof -
  have v: "valid_gregorian 2015 9 11"
    by (simp add: valid_gregorian_def last_day_of_month_def)
  have l: "- 4800 < (2015::int) \<or> ((2015::int) = - 4800 \<and> (3::int) \<le> 9)" by simp
  have u: "(2015::int) < 1465102 \<or>
      ((2015::int) = 1465102 \<and> ((9::int) < 10 \<or> ((9::int) = 10 \<and> (11::int) \<le> 18)))"
    by simp
  have jdn: "gregorian_to_jdn 2015 9 11 = 2457277"
    unfolding gregorian_to_jdn_def Let_def by (simp add: c_division)
  show ?thesis using v gregorian_round_trip [OF v l u] by (simp add: jdn)
qed

text \<open>
  Claim C6 as it is written covers every integer year. 1 January of the year -4800 is a
  valid date; \<open>gregorian_to_jdn\<close> divides the negative shifted year -1 and
  \<open>jdn_to_gregorian\<close> returns day -28 of month 2. 19 October of the year 1465102 is a
  valid date; \<open>gregorian_to_jdn\<close> returns 536838868, and \<open>4 * a\<close> in
  \<open>jdn_to_gregorian\<close> is then \<open>2 ^ 31\<close>, above \<open>INT_MAX\<close>.
\<close>

theorem gregorian_round_trip_fails_outside_the_range:
  "valid_gregorian (- 4800) 1 1 \<and>
   gregorian_to_jdn_checked (- 4800) 1 1 = Some (- 32103) \<and>
   jdn_to_gregorian_checked (- 32103) = Some (- 4800, 2, - 28) \<and>
   valid_gregorian 1465102 10 19 \<and>
   gregorian_to_jdn_checked 1465102 10 19 = Some 536838868 \<and>
   jdn_to_gregorian_checked 536838868 = None"
proof -
  have v1: "valid_gregorian (- 4800) 1 1" and v2: "valid_gregorian 1465102 10 19"
    by (simp_all add: valid_gregorian_def last_day_of_month_def)
  have j1: "gregorian_to_jdn (- 4800) 1 1 = - 32103"
    unfolding gregorian_to_jdn_def Let_def by (simp add: c_division)
  have r1: "list_all in_int_range (gregorian_to_jdn_values (- 4800) 1 1)"
    unfolding gregorian_to_jdn_values_def Let_def
    by (simp add: c_division in_int_range_def INT_MIN_def INT_MAX_def)
  have g1: "jdn_to_gregorian (- 32103) = (- 4800, 2, - 28)"
    unfolding jdn_to_gregorian_def Let_def by (simp add: c_division)
  have r2: "list_all in_int_range (jdn_to_gregorian_values (- 32103))"
    unfolding jdn_to_gregorian_values_def Let_def
    by (simp add: c_division in_int_range_def INT_MIN_def INT_MAX_def)
  have j2: "gregorian_to_jdn 1465102 10 19 = 536838868"
    unfolding gregorian_to_jdn_def Let_def by (simp add: c_division)
  have r3: "list_all in_int_range (gregorian_to_jdn_values 1465102 10 19)"
    unfolding gregorian_to_jdn_values_def Let_def
    by (simp add: c_division in_int_range_def INT_MIN_def INT_MAX_def)
  have r4: "\<not> list_all in_int_range (jdn_to_gregorian_values 536838868)"
    unfolding jdn_to_gregorian_values_def Let_def
    by (simp add: in_int_range_def INT_MIN_def INT_MAX_def)
  show ?thesis
    by (simp add: gregorian_to_jdn_checked_def jdn_to_gregorian_checked_def
        v1 v2 j1 r1 g1 r2 j2 r3 r4)
qed

text \<open>
  On the same dates, and for every Julian Day Number from -32044 on, no operand of a
  division is negative and the two functions return what the formulas of the specification
  give with floor division.
\<close>

lemma gregorian_to_jdn_floor_agree:
  assumes "1 \<le> m" "m \<le> 12" and "- 4800 < y \<or> (y = - 4800 \<and> 3 \<le> m)"
  shows "gregorian_to_jdn y m d = spec_gregorianToJdn y m d"
proof -
  have a: "(14 - m) sdiv 12 = (14 - m) div 12"
    using assms by (simp add: sdiv_nonneg)
  have a_val: "(14 - m) div 12 = (if m \<le> 2 then 1 else 0)"
    using assms by simp arith
  have y': "0 \<le> y + 4800 - (14 - m) div 12"
    using assms by (auto simp add: a_val)
  have m': "0 \<le> 153 * (m + 12 * ((14 - m) div 12) - 3) + 2"
    using assms by (simp add: a_val)
  show ?thesis
    unfolding gregorian_to_jdn_def spec_gregorianToJdn_def Let_def a
    using y' m' by (simp add: sdiv_nonneg)
qed

lemma jdn_to_gregorian_floor_agree:
  assumes "- 32044 \<le> jdn"
  shows "jdn_to_gregorian jdn = spec_jdnToGregorian jdn"
proof -
  define a where "a = jdn + 32044"
  define b where "b = (4 * a + 3) div 146097"
  define c where "c = a - (b * 146097) div 4"
  define d where "d = (4 * c + 3) div 1461"
  define e where "e = c - (1461 * d) div 4"
  define m where "m = (5 * e + 2) div 153"
  have a: "0 \<le> a" using assms by (simp add: a_def)
  have b: "0 \<le> b" using a by (simp add: b_def)
  have "b * 146097 \<le> 4 * a + 3"
    unfolding b_def by (rule div_times_le) simp
  then have "(b * 146097) div 4 \<le> (4 * a + 3) div 4" by (rule zdiv_mono1) simp
  then have c: "0 \<le> c" by (simp add: c_def)
  have d: "0 \<le> d" using c by (simp add: d_def)
  have "1461 * d \<le> 4 * c + 3"
    unfolding d_def mult.commute [of 1461] by (rule div_times_le) simp
  then have "(1461 * d) div 4 \<le> (4 * c + 3) div 4" by (rule zdiv_mono1) simp
  then have e: "0 \<le> e" by (simp add: e_def)
  have m: "0 \<le> m" using e by (simp add: m_def)
  have "jdn_to_gregorian jdn =
      (b * 100 + d - 4800 + m sdiv 10, m + 3 - 12 * (m sdiv 10), e - (153 * m + 2) sdiv 5 + 1)"
    using a b c d e
    by (intro jdn_to_gregorian_steps [where a = a and c = c])
      (simp_all add: a_def [symmetric] b_def [symmetric] c_def [symmetric] d_def [symmetric]
        e_def [symmetric] m_def [symmetric] sdiv_nonneg)
  also have "\<dots> = spec_jdnToGregorian jdn"
    unfolding spec_jdnToGregorian_def Let_def a_def [symmetric] b_def [symmetric]
      c_def [symmetric] d_def [symmetric] e_def [symmetric] m_def [symmetric]
    using m by (simp add: sdiv_nonneg)
  finally show ?thesis .
qed

end
